theory Spec2Isabelle
  imports Complex_Main
begin

section \<open>The graphism propagation engine (graphism/graph.py)\<close>

text \<open>
  The class \<open>Graph\<close> of \<open>graphism/graph.py\<close> is embedded over an explicit object store.
  Python's \<open>Node\<close> objects are mutable and shared by reference between the registry
  \<open>__nodes\<close>, the index \<open>__infected\<close> and the adjacency of other nodes, so a node is a
  reference (an index into the store) and the two dictionaries map names to references.
  Dictionaries are association lists with distinct keys, in insertion order. Python floats
  are modelled by exact rationals.
\<close>

subsection \<open>Data model\<close>

type_synonym node_name = int
type_synonym ref = nat

datatype error = KeyError | TypeError | ZeroDivisionError | IndexError

text \<open>
  A transmission-probability function bound to a node is either the closure \<open>tp\<close> that
  \<open>Graph.__init__\<close> defines, or a function supplied by the caller (identified by a number).
\<close>

datatype tp_fun = Graph_tp | Supplied_tp nat

text \<open>
  Modelled from the spec: the class \<open>Edge\<close> of \<open>graphism/edge.py\<close>, which is not part of
  the sources. The spec gives it a multiplicity, a type tag \<open>type_\<close> and a weight
  \<open>weight_\<close> (the fields \<open>e_type\<close> and \<open>e_weight\<close>); the neighbour the edge leads to is
  kept with it, since \<open>Node.propagate\<close> invokes the callback on it.
\<close>

record edge =
  child :: ref
  multiplicity :: int
  e_type :: "string option"
  e_weight :: rat

text \<open>
  Modelled from the spec: the class \<open>Node\<close> of \<open>graphism/node.py\<close>, which is not part of
  the sources: a name, an adjacency mapping from neighbour name to \<open>Edge\<close>, and the
  transmission-probability function bound at construction.
\<close>

record node =
  name :: node_name
  edges :: "(node_name \<times> edge) list"
  transmission_probability :: tp_fun




subsection \<open>The object store and the Graph's attributes\<close>

text \<open>
  A callback given to \<open>set_infection\<close> or \<open>set_recovery\<close> is either the
  \<open>lambda n: None\<close> of \<open>Graph.__init__\<close> or a function of the caller (identified by a
  number). The procedures the two setters install are closures over the callback:
  \<open>Infection_i cb\<close> is the inner function \<open>i\<close> of \<open>set_infection\<close>, \<open>Recovery_r cb\<close>
  the inner function \<open>r\<close> of \<open>set_recovery\<close>.
\<close>

datatype callback = Lambda_None | Supplied_cb nat

datatype proc = Infection_i callback | Recovery_r callback

text \<open>
  What a caller can observe is recorded in a log: \<open>Callback cb n ks\<close> says that the
  caller's callback \<open>cb\<close> ran on node \<open>n\<close> while the infected index held the names
  \<open>ks\<close>; \<open>Propagate_asked n\<close> says that \<open>Graph.propagate\<close> called \<open>n.propagate\<close>.
\<close>

datatype event = Callback callback ref "node_name list" | Propagate_asked ref

text \<open>
  The store (\<open>heap\<close>: every \<open>Node\<close> object created so far, a reference being its index),
  the attributes of the one \<open>Graph\<close> object, and the log. An attribute that is still the
  class attribute \<open>None\<close> is \<open>None\<close>.
\<close>

record state =
  heap :: "node list"
  g_nodes :: "(node_name \<times> ref) list"
  g_infected :: "(node_name \<times> ref) list"
  g_transmission_probability :: tp_fun
  g_infection :: "proc option"
  g_recovery :: "proc option"
  events :: "event list"

text \<open>
  Modelled from the spec: the constructor of \<open>Node\<close> (not part of the sources), which
  creates a node with the given name and transmission-probability function and no edge.
\<close>

definition Node_init :: "node_name \<Rightarrow> tp_fun \<Rightarrow> state \<Rightarrow> ref \<times> state" where
  "Node_init nm t s =
     (length (heap s),
      s\<lparr>heap := heap s @ [\<lparr>name = nm, edges = [], transmission_probability = t\<rparr>]\<rparr>)"

text \<open>
  Modelled from the spec: \<open>Node.add_child\<close> (not part of the sources), which creates the
  edge to the child on the first call for that child's name and increments the edge's
  multiplicity on every later one.
\<close>

definition add_child :: "node \<Rightarrow> ref \<Rightarrow> node_name \<Rightarrow> string option \<Rightarrow> rat \<Rightarrow> node" where
  "add_child p c cname ty w =
     (case map_of (edges p) cname of
        None \<Rightarrow>
          p\<lparr>edges := edges p @
                [(cname, \<lparr>child = c, multiplicity = 1, e_type = ty, e_weight = w\<rparr>)]\<rparr>
      | Some e \<Rightarrow>
          p\<lparr>edges := map (\<lambda>(k, x). if k = cname
                                   then (k, x\<lparr>multiplicity := multiplicity x + 1\<rparr>)
                                   else (k, x)) (edges p)\<rparr>)"

definition Node_add_child :: "ref \<Rightarrow> ref \<Rightarrow> string option \<Rightarrow> rat \<Rightarrow> state \<Rightarrow> state" where
  "Node_add_child p c ty w s =
     s\<lparr>heap := (heap s)[p := add_child (heap s ! p) c (name (heap s ! c)) ty w]\<rparr>"

subsection \<open>Registry\<close>

definition get_node_by_name :: "state \<Rightarrow> node_name \<Rightarrow> ref option" where
  "get_node_by_name s nm = map_of (g_nodes s) nm"

definition add_node :: "ref \<Rightarrow> state \<Rightarrow> ref \<times> state" where
  "add_node n s =
     (n, if name (heap s ! n) \<notin> fst ` set (g_nodes s)
         then s\<lparr>g_nodes := g_nodes s @ [(name (heap s ! n), n)]\<rparr>
         else s)"

text \<open>\<open>transmission_probability or self.__transmission_probability\<close>\<close>

definition or_default :: "nat option \<Rightarrow> tp_fun \<Rightarrow> tp_fun" where
  "or_default t d = (case t of None \<Rightarrow> d | Some f \<Rightarrow> Supplied_tp f)"

text \<open>
  \<open>Graph.add_edge_by_node_sequence\<close>. A \<open>Node\<close> object is taken to be true in
  \<open>if not p\<close>. The parameter \<open>directed\<close> is not read by the body.
\<close>

definition add_edge_by_node_sequence ::
  "node_name \<Rightarrow> node_name \<Rightarrow> bool option \<Rightarrow> nat option \<Rightarrow> string option \<Rightarrow> rat \<Rightarrow> state \<Rightarrow> state"
  where
  "add_edge_by_node_sequence parent child_name directed tprob ty w s =
     (let (p, s1) = (case get_node_by_name s parent of
                       Some x \<Rightarrow> (x, s)
                     | None \<Rightarrow> Node_init parent (or_default tprob (g_transmission_probability s)) s);
          (c, s2) = (case get_node_by_name s1 child_name of
                       Some x \<Rightarrow> (x, s1)
                     | None \<Rightarrow> Node_init child_name (or_default tprob (g_transmission_probability s1)) s1);
          s3 = Node_add_child p c ty w s2;
          s4 = snd (add_node p s3)
      in snd (add_node c s4))"

text \<open>
  \<open>Graph.add_edge\<close>. Its tests \<open>from_ not in self.__nodes\<close> look a \<open>Node\<close> up among the
  names, so they hold and \<open>add_node\<close> is called for both nodes.
\<close>

definition add_edge :: "ref \<Rightarrow> ref \<Rightarrow> state \<Rightarrow> error + ((ref \<times> edge \<times> ref) \<times> state)" where
  "add_edge from_n to_n s =
     (let s1 = snd (add_node from_n s);
          s2 = snd (add_node to_n s1);
          s3 = Node_add_child from_n to_n None 1 s2
      in case map_of (edges (heap s3 ! from_n)) (name (heap s3 ! to_n)) of
           None \<Rightarrow> Inl KeyError
         | Some e \<Rightarrow> Inr ((from_n, e, to_n), s3))"

subsection \<open>Infection and recovery procedures\<close>

definition set_infection_i :: "callback \<Rightarrow> ref \<Rightarrow> state \<Rightarrow> state" where
  "set_infection_i cb n s =
     (let nm = name (heap s ! n);
          s1 = (if nm \<notin> fst ` set (g_infected s)
                then s\<lparr>g_infected := g_infected s @ [(nm, n)]\<rparr>
                else s)
      in s1\<lparr>events := events s1 @ [Callback cb n (map fst (g_infected s1))]\<rparr>)"

definition set_infection :: "callback \<Rightarrow> state \<Rightarrow> state" where
  "set_infection cb s = s\<lparr>g_infection := Some (Infection_i cb)\<rparr>"

definition set_recovery_r :: "callback \<Rightarrow> ref \<Rightarrow> state \<Rightarrow> state" where
  "set_recovery_r cb n s =
     (let nm = name (heap s ! n) in
      if nm \<in> fst ` set (g_infected s)
      then s\<lparr>g_infected := filter (\<lambda>(k, x). k \<noteq> nm) (g_infected s)\<rparr>
      else s)"

definition set_recovery :: "callback \<Rightarrow> state \<Rightarrow> state" where
  "set_recovery cb s = s\<lparr>g_recovery := Some (Recovery_r cb)\<rparr>"

text \<open>Calling the value of an attribute: \<open>None\<close> is not callable.\<close>

definition call_proc :: "proc option \<Rightarrow> ref \<Rightarrow> state \<Rightarrow> error + state" where
  "call_proc f n s =
     (case f of
        None \<Rightarrow> Inl TypeError
      | Some (Infection_i cb) \<Rightarrow> Inr (set_infection_i cb n s)
      | Some (Recovery_r cb) \<Rightarrow> Inr (set_recovery_r cb n s))"

text \<open>A \<open>for\<close> loop whose body may raise.\<close>

fun for_each :: "('a \<Rightarrow> state \<Rightarrow> error + state) \<Rightarrow> 'a list \<Rightarrow> state \<Rightarrow> error + state" where
  "for_each body [] s = Inr s"
| "for_each body (x # xs) s =
     (case body x s of Inl e \<Rightarrow> Inl e | Inr s1 \<Rightarrow> for_each body xs s1)"

text \<open>
  Modelled from the spec: \<open>Node.infect\<close>, \<open>Node.propagate\<close> and \<open>Node.recover\<close> (not part
  of the sources). \<open>infect\<close> invokes the callback on the node itself. \<open>propagate\<close> draws
  once for each edge the node owns and on success invokes the callback on the neighbour;
  the outcome of the draw for the edge of node \<open>n\<close> to the name \<open>k\<close> is \<open>draw n k\<close>.
  \<open>recover\<close> invokes the callback on the node itself when its policy, \<open>decide n\<close>, says so.
\<close>

definition Node_infect :: "ref \<Rightarrow> proc option \<Rightarrow> state \<Rightarrow> error + state" where
  "Node_infect n callback s = call_proc callback n s"

definition Node_propagate ::
  "(ref \<Rightarrow> node_name \<Rightarrow> bool) \<Rightarrow> ref \<Rightarrow> proc option \<Rightarrow> state \<Rightarrow> error + state" where
  "Node_propagate draw n callback s =
     for_each (\<lambda>(k, e) s1. if draw n k then call_proc callback (child e) s1 else Inr s1)
       (edges (heap s ! n)) s"

definition Node_recover :: "(ref \<Rightarrow> bool) \<Rightarrow> ref \<Rightarrow> proc option \<Rightarrow> state \<Rightarrow> error + state" where
  "Node_recover decide n callback s = (if decide n then call_proc callback n s else Inr s)"

subsection \<open>Seeding, queries and the two steps of a tick\<close>

definition infect_seeds :: "ref list \<Rightarrow> state \<Rightarrow> error + state" where
  "infect_seeds seed_nodes s =
     for_each (\<lambda>n s1. Node_infect n (g_infection s1) s1) seed_nodes s"

text \<open>
  The three queries return sets of \<open>Node\<close> objects; two nodes are the same element when
  they are the same object.
\<close>

definition infected :: "state \<Rightarrow> ref set" where
  "infected s = set (map snd (g_infected s))"

definition nodes :: "state \<Rightarrow> ref set" where
  "nodes s = set (map snd (g_nodes s))"

definition susceptible :: "state \<Rightarrow> ref set" where
  "susceptible s = nodes s - infected s"

text \<open>
  \<open>for n in self.infected()\<close> walks the set that \<open>infected()\<close> returned when the loop began.
  Python leaves the order open; the model walks it by increasing reference.
\<close>

definition propagate :: "(ref \<Rightarrow> node_name \<Rightarrow> bool) \<Rightarrow> state \<Rightarrow> error + state" where
  "propagate draw s =
     for_each
       (\<lambda>n s1. Node_propagate draw n (g_infection s1)
                  (s1\<lparr>events := events s1 @ [Propagate_asked n]\<rparr>))
       (sorted_list_of_set (infected s)) s"

definition recover :: "(ref \<Rightarrow> bool) \<Rightarrow> state \<Rightarrow> error + state" where
  "recover decide s =
     for_each (\<lambda>n s1. Node_recover decide n (g_recovery s1) s1)
       (sorted_list_of_set (infected s)) s"

subsection \<open>Construction\<close>

text \<open>
  An edge record of the keyword form is a dictionary with the keys \<open>from_\<close>, \<open>to_\<close>,
  \<open>type_\<close> and \<open>weight_\<close> (the fields \<open>r_from\<close>, \<open>r_to\<close>, \<open>r_type\<close> and \<open>r_weight\<close>); a
  key it does not have is \<open>None\<close>.
  \<open>kwargs\<close> are the keyword arguments of \<open>Graph.__init__\<close>, \<open>args\<close> its positional ones.
\<close>

record edge_record =
  r_from :: "node_name option"
  r_to :: "node_name option"
  r_type :: "string option"
  r_weight :: "rat option"

record kwargs =
  kw_graph :: "edge_record list option"
  kw_directed :: "bool option"
  kw_transmission_probability :: "nat option"

fun kwargs_edges :: "edge_record list \<Rightarrow> bool \<Rightarrow> nat option \<Rightarrow> state \<Rightarrow> error + state" where
  "kwargs_edges [] directed tprob s = Inr s"
| "kwargs_edges (e # es) directed tprob s =
     (case r_from e of
        None \<Rightarrow> Inl KeyError
      | Some parent \<Rightarrow>
          (case r_to e of
             None \<Rightarrow> Inl KeyError
           | Some child_name \<Rightarrow>
               kwargs_edges es directed tprob
                 (add_edge_by_node_sequence parent child_name (Some directed) tprob
                    (r_type e) (case r_weight e of None \<Rightarrow> 1 | Some w \<Rightarrow> w) s)))"

definition init_nodes_from_kwargs :: "kwargs \<Rightarrow> state \<Rightarrow> error + state" where
  "init_nodes_from_kwargs kw s =
     (case kw_graph kw of
        None \<Rightarrow> Inl KeyError
      | Some graph \<Rightarrow>
          kwargs_edges graph (case kw_directed kw of None \<Rightarrow> False | Some d \<Rightarrow> d)
            (kw_transmission_probability kw) s)"

fun args_edges :: "(node_name \<times> node_name) list \<Rightarrow> state \<Rightarrow> state" where
  "args_edges [] s = s"
| "args_edges ((parent, child_name) # es) s =
     args_edges es (add_edge_by_node_sequence parent child_name None None None 1 s)"

definition init_nodes_from_args ::
  "(node_name \<times> node_name) list list \<Rightarrow> kwargs \<Rightarrow> state \<Rightarrow> error + state" where
  "init_nodes_from_args args kw s =
     (case args of [] \<Rightarrow> Inl IndexError | graph # rest \<Rightarrow> Inr (args_edges graph s))"

definition new_graph :: state where
  "new_graph =
     \<lparr>heap = [], g_nodes = [], g_infected = [], g_transmission_probability = Graph_tp,
      g_infection = None, g_recovery = None, events = []\<rparr>"

definition Graph_init :: "(node_name \<times> node_name) list list \<Rightarrow> kwargs \<Rightarrow> error + state" where
  "Graph_init args kw =
     (case (if kw_graph kw \<noteq> None then init_nodes_from_kwargs kw new_graph
            else if args \<noteq> [] then init_nodes_from_args args kw new_graph
            else Inr new_graph) of
        Inl e \<Rightarrow> Inl e
      | Inr s \<Rightarrow> Inr (set_recovery Lambda_None (set_infection Lambda_None s)))"

definition no_kwargs :: kwargs where
  "no_kwargs = \<lparr>kw_graph = None, kw_directed = None, kw_transmission_probability = None\<rparr>"

subsection \<open>A caller's session with one graph\<close>

text \<open>
  What a driver can do once the graph exists: create a \<open>Node\<close> of its own, and call the
  methods of the graph. \<open>exec\<close> performs one such call, \<open>run\<close> a sequence of them, and
  \<open>session\<close> constructs the graph first.
\<close>

datatype call =
    New_Node node_name tp_fun
  | Add_edge_by_node_sequence node_name node_name "bool option" "nat option" "string option" rat
  | Add_node ref
  | Add_edge ref ref
  | Set_infection callback
  | Set_recovery callback
  | Infect_seeds "ref list"
  | Propagate "ref \<Rightarrow> node_name \<Rightarrow> bool"
  | Recover "ref \<Rightarrow> bool"

fun exec :: "call \<Rightarrow> state \<Rightarrow> error + state" where
  "exec (New_Node nm t) s = Inr (snd (Node_init nm t s))"
| "exec (Add_edge_by_node_sequence parent child_name directed tprob ty w) s =
     Inr (add_edge_by_node_sequence parent child_name directed tprob ty w s)"
| "exec (Add_node n) s = Inr (snd (add_node n s))"
| "exec (Add_edge from_n to_n) s =
     (case add_edge from_n to_n s of Inl e \<Rightarrow> Inl e | Inr (res, s1) \<Rightarrow> Inr s1)"
| "exec (Set_infection cb) s = Inr (set_infection cb s)"
| "exec (Set_recovery cb) s = Inr (set_recovery cb s)"
| "exec (Infect_seeds seed_nodes) s = infect_seeds seed_nodes s"
| "exec (Propagate draw) s = propagate draw s"
| "exec (Recover decide) s = recover decide s"

definition run :: "call list \<Rightarrow> state \<Rightarrow> error + state" where
  "run cs s = for_each exec cs s"

definition session ::
  "(node_name \<times> node_name) list list \<Rightarrow> kwargs \<Rightarrow> call list \<Rightarrow> error + state" where
  "session args kw cs = (case Graph_init args kw of Inl e \<Rightarrow> Inl e | Inr s \<Rightarrow> run cs s)"





text \<open>The nodes that \<open>Graph.propagate\<close> asked to propagate, in the order of the log.\<close>

fun asked_propagate :: "event list \<Rightarrow> ref list" where
  "asked_propagate [] = []"
| "asked_propagate (Propagate_asked n # es) = n # asked_propagate es"
| "asked_propagate (Callback cb n ks # es) = asked_propagate es"

definition installed :: "state \<Rightarrow> bool" where
  "installed s = (g_infection s \<noteq> None \<and> g_recovery s \<noteq> None)"

subsection \<open>Well-formed states\<close>

text \<open>
  The invariant of the store and the two dictionaries: keys are distinct; the index is a
  part of the registry; a node is registered under its own name; a neighbour of a
  registered node is registered too, or is a second object with the node's own name (a
  self-loop on a new name creates one); a node that owns an edge has a registered name.
\<close>

definition children :: "node \<Rightarrow> ref set" where
  "children nd = set (map (\<lambda>(k, e). child e) (edges nd))"

definition well_formed :: "state \<Rightarrow> bool" where
  "well_formed s =
     (distinct (map fst (g_nodes s)) \<and> distinct (map fst (g_infected s)) \<and>
      set (g_infected s) \<subseteq> set (g_nodes s) \<and>
      (\<forall>(k, n) \<in> set (g_nodes s). n < length (heap s) \<and> name (heap s ! n) = k \<and>
         (\<forall>c \<in> children (heap s ! n). c < length (heap s) \<and>
            (c \<in> nodes s \<or> name (heap s ! c) = k))) \<and>
      (\<forall>n < length (heap s). edges (heap s ! n) \<noteq> [] \<longrightarrow>
         name (heap s ! n) \<in> fst ` set (g_nodes s)))"


definition graph_inv :: "state \<Rightarrow> bool" where
  "graph_inv s =
     (well_formed s \<and> (\<forall>cb. g_infection s \<noteq> Some (Recovery_r cb))
           \<and> (\<forall>cb. g_recovery s \<noteq> Some (Infection_i cb)))"







section \<open>Properties\<close>

lemmas model_defs =
  Graph_init_def no_kwargs_def init_nodes_from_args_def init_nodes_from_kwargs_def new_graph_def
  add_edge_by_node_sequence_def get_node_by_name_def Node_init_def or_default_def
  Node_add_child_def add_child_def add_node_def add_edge_def set_infection_def set_recovery_def
  infect_seeds_def Node_infect_def call_proc_def set_infection_i_def set_recovery_r_def
  propagate_def recover_def infected_def nodes_def susceptible_def Node_propagate_def
  Node_recover_def run_def session_def

subsection \<open>The infection and recovery procedures\<close>

text \<open>
  C5. The procedure installed by \<open>set_infection\<close> is the inner function \<open>i\<close> over the
  callback given. It adds the node's name to the infected index when it is not there yet
  and then invokes the caller's callback on the node, which therefore finds the name in
  the index. Invoked a second time on the same node it leaves the index, and so the size
  of \<open>infected()\<close>, unchanged, while the callback runs on each invocation.
\<close>

theorem infection_procedure_index_then_callback:
  "call_proc (g_infection (set_infection cb s0)) n s = Inr (set_infection_i cb n s)
   \<and> g_infected (set_infection_i cb n s) =
     (if name (heap s ! n) \<in> fst ` set (g_infected s) then g_infected s
      else g_infected s @ [(name (heap s ! n), n)])
   \<and> events (set_infection_i cb n s) =
       events s @ [Callback cb n (map fst (g_infected (set_infection_i cb n s)))]
   \<and> name (heap s ! n) \<in> set (map fst (g_infected (set_infection_i cb n s)))
   \<and> g_infected (set_infection_i cb n (set_infection_i cb n s)) =
       g_infected (set_infection_i cb n s)
   \<and> card (infected (set_infection_i cb n (set_infection_i cb n s))) =
       card (infected (set_infection_i cb n s))
   \<and> events (set_infection_i cb n (set_infection_i cb n s)) =
       events s @ [Callback cb n (map fst (g_infected (set_infection_i cb n s))),
                   Callback cb n (map fst (g_infected (set_infection_i cb n s)))]"
  by (auto simp add: set_infection_def call_proc_def set_infection_i_def infected_def Let_def)

text \<open>
  C4. The procedure installed by \<open>set_recovery\<close> is the inner function \<open>r\<close>. It removes
  the node from the infected index, but the caller's callback never runs: the log is left
  as it was. In the session below the graph of \<open>[(1, 2)]\<close> gets the recovery callback 7,
  node 1 is seeded and recovers; the index ends empty and the only callback that ran is
  the infection's.
\<close>

theorem recovery_callback_never_fires:
  "call_proc (g_recovery (set_recovery cb s0)) n s = Inr (set_recovery_r cb n s)
   \<and> events (set_recovery_r cb n s) = events s
   \<and> map_sum id (\<lambda>s. (g_infected s, events s))
        (session [[(1, 2)]] no_kwargs
           [Set_recovery (Supplied_cb 7), Infect_seeds [0], Recover (\<lambda>n. True)])
      = Inr ([], [Callback Lambda_None 0 [1]])"
  by (simp add: model_defs Let_def)

subsection \<open>Construction\<close>

text \<open>
  C6. A graph built with the default \<open>directed=False\<close> is not wired symmetrically: for
  \<open>[(1, 2)]\<close> node 1 owns the edge to node 2 and node 2 owns no edge, in the positional
  and in the keyword form, so an infected node 2 infects nobody even when every draw
  succeeds.
\<close>

theorem undirected_graph_not_symmetric:
  "map_sum id (\<lambda>s. (map edges (heap s), g_nodes s)) (Graph_init [[(1, 2)]] no_kwargs) =
     Inr ([[(2, \<lparr>child = 1, multiplicity = 1, e_type = None, e_weight = 1\<rparr>)], []],
          [(1, 0), (2, 1)])
   \<and> map_sum id infected
        (session [[(1, 2)]] no_kwargs [Infect_seeds [1], Propagate (\<lambda>n k. True)]) = Inr {1}
   \<and> map_sum id (\<lambda>s. map edges (heap s))
        (Graph_init []
           \<lparr>kw_graph = Some [\<lparr>r_from = Some 1, r_to = Some 2, r_type = None, r_weight = None\<rparr>],
            kw_directed = Some False, kw_transmission_probability = None\<rparr>) =
     Inr [[(2, \<lparr>child = 1, multiplicity = 1, e_type = None, e_weight = 1\<rparr>)], []]"
  by (simp add: model_defs Let_def)

text \<open>
  C7. A graph built from a positional edge list together with the keyword
  \<open>transmission_probability\<close> binds the default rule to its nodes, not the supplied
  function; the keyword form binds the supplied function.
\<close>

theorem positional_ignores_transmission_probability:
  "map_sum id (\<lambda>s. map transmission_probability (heap s))
     (Graph_init [[(1, 2)]]
        \<lparr>kw_graph = None, kw_directed = None, kw_transmission_probability = Some 5\<rparr>) =
     Inr [Graph_tp, Graph_tp]
   \<and> map_sum id (\<lambda>s. map transmission_probability (heap s))
     (Graph_init []
        \<lparr>kw_graph = Some [\<lparr>r_from = Some 1, r_to = Some 2, r_type = None, r_weight = None\<rparr>],
         kw_directed = None, kw_transmission_probability = Some 5\<rparr>) =
     Inr [Supplied_tp 5, Supplied_tp 5]"
  by (simp add: model_defs Let_def)

lemma kwargs_edges_missing_key:
  "\<exists>e \<in> set es. r_from e = None \<or> r_to e = None \<Longrightarrow> kwargs_edges es d t s = Inl KeyError"
  by (induction es arbitrary: s) (auto split: option.splits)

text \<open>
  C9. When the keyword form is given an edge record without the key \<open>from_\<close> or without
  the key \<open>to_\<close>, the construction raises \<open>KeyError\<close>: no graph results.
\<close>

theorem malformed_edge_record_fails:
  assumes "kw_graph kw = Some graph"
    and "\<exists>e \<in> set graph. r_from e = None \<or> r_to e = None"
  shows "Graph_init args kw = Inl KeyError"
  using assms kwargs_edges_missing_key [OF assms(2)]
  by (simp add: Graph_init_def init_nodes_from_kwargs_def)

text \<open>Two records, the second without \<open>to_\<close>.\<close>

theorem malformed_edge_record_fails_witness:
  "Graph_init [[(5, 6)]]
     \<lparr>kw_graph = Some [\<lparr>r_from = Some 1, r_to = Some 2, r_type = None, r_weight = None\<rparr>,
                       \<lparr>r_from = Some 2, r_to = None, r_type = None, r_weight = Some 2\<rparr>],
      kw_directed = None, kw_transmission_probability = None\<rparr> = Inl KeyError"
  using malformed_edge_record_fails [of
     "\<lparr>kw_graph = Some [\<lparr>r_from = Some 1, r_to = Some 2, r_type = None, r_weight = None\<rparr>,
                       \<lparr>r_from = Some 2, r_to = None, r_type = None, r_weight = Some 2\<rparr>],
      kw_directed = None, kw_transmission_probability = None\<rparr>"
     "[\<lparr>r_from = Some 1, r_to = Some 2, r_type = None, r_weight = None\<rparr>,
       \<lparr>r_from = Some 2, r_to = None, r_type = None, r_weight = Some 2\<rparr>]"
     "[[(5, 6)]]"]
  by simp

subsection \<open>Loops\<close>

lemma for_each_total:
  assumes "P s"
    and "\<And>x s1. x \<in> set xs \<Longrightarrow> P s1 \<Longrightarrow> \<exists>s2. body x s1 = Inr s2 \<and> P s2"
  shows "\<exists>s'. for_each body xs s = Inr s' \<and> P s'"
  using assms
proof (induction xs arbitrary: s)
  case Nil
  then show ?case by simp
next
  case (Cons x xs)
  from Cons.prems obtain s2 where b: "body x s = Inr s2" and p: "P s2"
    by (meson list.set_intros(1))
  have "\<exists>s'. for_each body xs s2 = Inr s' \<and> P s'"
    by (rule Cons.IH [OF p]) (simp add: Cons.prems(2))
  with b show ?case by simp
qed


subsection \<open>Installed procedures\<close>

lemma call_proc_installed:
  "f \<noteq> None \<Longrightarrow> \<exists>s2. call_proc f n s = Inr s2 \<and> g_infection s2 = g_infection s
     \<and> g_recovery s2 = g_recovery s"
  by (auto simp add: call_proc_def set_infection_i_def set_recovery_r_def Let_def
      split: option.splits proc.splits)

lemma Node_propagate_installed:
  assumes "f \<noteq> None"
  shows "\<exists>s2. Node_propagate draw n f s = Inr s2 \<and> g_infection s2 = g_infection s
     \<and> g_recovery s2 = g_recovery s"
proof -
  have "\<exists>s2. for_each (\<lambda>(k, e) s1. if draw n k then call_proc f (child e) s1 else Inr s1)
           (edges (heap s ! n)) s = Inr s2
         \<and> (g_infection s2 = g_infection s \<and> g_recovery s2 = g_recovery s)"
  proof (rule for_each_total [where P = "\<lambda>s2. g_infection s2 = g_infection s \<and> g_recovery s2 = g_recovery s"])
    show "g_infection s = g_infection s \<and> g_recovery s = g_recovery s" by simp
  next
    fix x :: "node_name \<times> edge" and s1 :: state
    assume "g_infection s1 = g_infection s \<and> g_recovery s1 = g_recovery s"
    then show "\<exists>s2. (case x of (k, e) \<Rightarrow> \<lambda>s1. if draw n k then call_proc f (child e) s1 else Inr s1) s1 = Inr s2
        \<and> (g_infection s2 = g_infection s \<and> g_recovery s2 = g_recovery s)"
      using call_proc_installed [OF assms, of "child (snd x)" s1]
      by (auto split: prod.splits)
  qed
  then show ?thesis by (simp add: Node_propagate_def)
qed

lemma infect_seeds_installed:
  assumes "installed s"
  shows "\<exists>s'. infect_seeds seeds s = Inr s' \<and> installed s'"
  unfolding infect_seeds_def
proof (rule for_each_total [where P = installed, OF assms])
  fix x :: ref and s1 :: state assume "installed s1"
  then show "\<exists>s2. Node_infect x (g_infection s1) s1 = Inr s2 \<and> installed s2"
    using call_proc_installed [of "g_infection s1" x s1]
    by (auto simp add: installed_def Node_infect_def)
qed

lemma propagate_installed:
  assumes "installed s"
  shows "\<exists>s'. propagate draw s = Inr s' \<and> installed s'"
  unfolding propagate_def
proof (rule for_each_total [where P = installed, OF assms])
  fix x :: ref and s1 :: state assume "installed s1"
  then show "\<exists>s2. Node_propagate draw x (g_infection s1)
         (s1\<lparr>events := events s1 @ [Propagate_asked x]\<rparr>) = Inr s2 \<and> installed s2"
    using Node_propagate_installed [of "g_infection s1" draw x "s1\<lparr>events := events s1 @ [Propagate_asked x]\<rparr>"]
    by (auto simp add: installed_def)
qed

lemma recover_installed:
  assumes "installed s"
  shows "\<exists>s'. recover decide s = Inr s' \<and> installed s'"
  unfolding recover_def
proof (rule for_each_total [where P = installed, OF assms])
  fix x :: ref and s1 :: state assume "installed s1"
  then show "\<exists>s2. Node_recover decide x (g_recovery s1) s1 = Inr s2 \<and> installed s2"
    using call_proc_installed [of "g_recovery s1" x s1]
    by (auto simp add: installed_def Node_recover_def)
qed

lemma Graph_init_installs:
  "Graph_init args kw = Inr s \<Longrightarrow>
     g_infection s = Some (Infection_i Lambda_None) \<and> g_recovery s = Some (Recovery_r Lambda_None)"
  by (auto simp add: Graph_init_def set_infection_def set_recovery_def split: sum.splits if_splits)

text \<open>Before the procedures are installed the attribute is \<open>None\<close>, and calling it raises.\<close>

lemma unset_callback_raises:
  "infect_seeds [n] new_graph = Inl TypeError"
  by (simp add: infect_seeds_def Node_infect_def call_proc_def new_graph_def)


subsection \<open>The propagation step\<close>

lemma asked_propagate_append:
  "asked_propagate (xs @ ys) = asked_propagate xs @ asked_propagate ys"
  by (induction xs rule: asked_propagate.induct) simp_all

lemma call_proc_log:
  "f \<noteq> None \<Longrightarrow> \<exists>s2 new. call_proc f n s = Inr s2 \<and> events s2 = events s @ new
     \<and> asked_propagate new = [] \<and> g_infection s2 = g_infection s"
  by (auto simp add: call_proc_def set_infection_i_def set_recovery_r_def Let_def
      split: option.splits proc.splits)

lemma Node_propagate_log:
  assumes "f \<noteq> None"
  shows "\<exists>s2 new. Node_propagate draw n f s = Inr s2 \<and> events s2 = events s @ new
     \<and> asked_propagate new = [] \<and> g_infection s2 = g_infection s"
proof -
  let ?P = "\<lambda>s2. \<exists>new. events s2 = events s @ new \<and> asked_propagate new = []
              \<and> g_infection s2 = g_infection s"
  have "\<exists>s2. for_each (\<lambda>(k, e) s1. if draw n k then call_proc f (child e) s1 else Inr s1)
           (edges (heap s ! n)) s = Inr s2 \<and> ?P s2"
  proof (rule for_each_total [where P = ?P])
    show "?P s" by simp
  next
    fix x :: "node_name \<times> edge" and s1 :: state
    assume p: "?P s1"
    then obtain new where n: "events s1 = events s @ new" "asked_propagate new = []"
      "g_infection s1 = g_infection s" by blast
    obtain s2 new2 where c: "call_proc f (child (snd x)) s1 = Inr s2"
      "events s2 = events s1 @ new2" "asked_propagate new2 = []" "g_infection s2 = g_infection s1"
      using call_proc_log [OF assms] by blast
    have "?P s2"
      using n c by (simp add: asked_propagate_append)
    then show "\<exists>s2. (case x of (k, e) \<Rightarrow> \<lambda>s1. if draw n k then call_proc f (child e) s1 else Inr s1) s1 = Inr s2
        \<and> ?P s2"
      using p c by (cases x) auto
  qed
  then show ?thesis by (simp add: Node_propagate_def)
qed

lemma propagate_loop_log:
  assumes "g_infection s \<noteq> None"
  shows "\<exists>s' new.
     for_each (\<lambda>n s1. Node_propagate draw n (g_infection s1)
                 (s1\<lparr>events := events s1 @ [Propagate_asked n]\<rparr>)) xs s = Inr s'
     \<and> events s' = events s @ new \<and> asked_propagate new = xs"
  using assms
proof (induction xs arbitrary: s)
  case Nil
  then show ?case by simp
next
  case (Cons x xs)
  obtain s2 new where b: "Node_propagate draw x (g_infection s)
        (s\<lparr>events := events s @ [Propagate_asked x]\<rparr>) = Inr s2"
      "events s2 = events s @ [Propagate_asked x] @ new" "asked_propagate new = []"
      "g_infection s2 = g_infection s"
    using Node_propagate_log [of "g_infection s" draw x "s\<lparr>events := events s @ [Propagate_asked x]\<rparr>"]
      Cons.prems by auto
  from b(4) Cons.prems have "g_infection s2 \<noteq> None" by simp
  from Cons.IH [OF this] obtain s' new' where r:
    "for_each (\<lambda>n s1. Node_propagate draw n (g_infection s1)
                 (s1\<lparr>events := events s1 @ [Propagate_asked n]\<rparr>)) xs s2 = Inr s'"
    "events s' = events s2 @ new'" "asked_propagate new' = xs" by blast
  have "events s' = events s @ ([Propagate_asked x] @ new @ new')"
    using b(2) r(2) by simp
  moreover have "asked_propagate ([Propagate_asked x] @ new @ new') = x # xs"
    using b(3) r(3) by (simp add: asked_propagate_append)
  ultimately show ?case using b(1) r(1) by (intro exI [of _ s'] exI [of _ "[Propagate_asked x] @ new @ new'"]) simp
qed

text \<open>
  C3. \<open>propagate\<close> returns, and the nodes it asks to propagate during the tick are exactly
  the nodes of the set \<open>infected()\<close> taken when the tick began: a node that becomes
  infected during the tick is not asked to propagate within it.
\<close>

theorem propagate_walks_snapshot:
  assumes "g_infection s \<noteq> None"
  shows "\<exists>s' new. propagate draw s = Inr s' \<and> events s' = events s @ new
     \<and> asked_propagate new = sorted_list_of_set (infected s)
     \<and> set (asked_propagate new) = infected s
     \<and> (infected s' - infected s) \<inter> set (asked_propagate new) = {}"
proof -
  obtain s' new where p: "propagate draw s = Inr s'" "events s' = events s @ new"
    "asked_propagate new = sorted_list_of_set (infected s)"
    using propagate_loop_log [OF assms, of draw "sorted_list_of_set (infected s)"]
    by (auto simp add: propagate_def)
  have "finite (infected s)" by (simp add: infected_def)
  then have "set (asked_propagate new) = infected s" using p(3) by simp
  then show ?thesis using p by blast
qed

text \<open>
  The chain \<open>[(1, 2), (2, 3)]\<close> with node 1 seeded and every draw succeeding: node 2
  becomes infected during the tick and owns an edge, but only node 1 is asked.
\<close>

theorem propagate_walks_snapshot_witness:
  "g_infection (projr (session [[(1, 2), (2, 3)]] no_kwargs [Infect_seeds [0]])) \<noteq> None
   \<and> infected (projr (session [[(1, 2), (2, 3)]] no_kwargs [Infect_seeds [0]])) = {0}
   \<and> (\<exists>s' new. propagate (\<lambda>n k. True) (projr (session [[(1, 2), (2, 3)]] no_kwargs [Infect_seeds [0]])) = Inr s'
        \<and> events s' = events (projr (session [[(1, 2), (2, 3)]] no_kwargs [Infect_seeds [0]])) @ new
        \<and> infected s' = {0, 1} \<and> asked_propagate new = [0])"
proof -
  let ?s = "projr (session [[(1, 2), (2, 3)]] no_kwargs [Infect_seeds [0]])"
  have h: "g_infection ?s \<noteq> None" by (simp add: model_defs Let_def)
  have i: "infected ?s = {0}" by (simp add: model_defs Let_def)
  have v: "map_sum id infected (propagate (\<lambda>n k. True) ?s) = Inr {0, 1}"
    by (simp add: model_defs Let_def)
  from propagate_walks_snapshot [OF h, of "\<lambda>n k. True"] obtain s' new where
    p: "propagate (\<lambda>n k. True) ?s = Inr s'" "events s' = events ?s @ new"
       "asked_propagate new = sorted_list_of_set (infected ?s)" by blast
  from v p(1) have "infected s' = {0, 1}" by simp
  moreover from p(3) i have "asked_propagate new = [0]" by simp
  ultimately show ?thesis using h i p(1,2) by blast
qed

subsection \<open>The invariant of the store and the dictionaries\<close>

lemma add_child_name [simp]: "name (add_child p c k ty w) = name p"
  by (simp add: add_child_def split: option.splits)

lemma add_child_children: "children (add_child p c k ty w) \<subseteq> insert c (children p)"
  by (auto simp add: add_child_def children_def split: option.splits if_splits)

lemma add_child_edges_empty: "edges (add_child p c k ty w) = [] \<Longrightarrow> edges p = []"
  by (auto simp add: add_child_def split: option.splits)

lemma wf_frame:
  "heap s' = heap s \<Longrightarrow> g_nodes s' = g_nodes s \<Longrightarrow> g_infected s' = g_infected s \<Longrightarrow> well_formed s' = well_formed s"
  by (simp add: well_formed_def nodes_def)

lemma wf_lookup:
  "well_formed s \<Longrightarrow> get_node_by_name s k = Some x \<Longrightarrow>
     x < length (heap s) \<and> x \<in> nodes s \<and> name (heap s ! x) = k"
  by (force simp add: well_formed_def get_node_by_name_def nodes_def dest: map_of_SomeD)

lemma lookup_None: "get_node_by_name s k = None \<Longrightarrow> k \<notin> fst ` set (g_nodes s)"
  by (simp add: get_node_by_name_def map_of_eq_None_iff)

lemma wf_Node_init: "well_formed s \<Longrightarrow> well_formed (snd (Node_init nm t s))"
  unfolding well_formed_def Node_init_def nodes_def children_def
  by (auto simp add: nth_append less_Suc_eq)


lemma wf_add_node: "well_formed s \<Longrightarrow> n < length (heap s) \<Longrightarrow> well_formed (snd (add_node n s))"
  unfolding well_formed_def add_node_def nodes_def children_def
  by (auto simp add: image_iff)

lemma heap_Node_add_child:
  "heap (Node_add_child p c ty w s) ! n =
     (if n = p \<and> p < length (heap s) then add_child (heap s ! p) c (name (heap s ! c)) ty w
      else heap s ! n)"
proof (cases "p < length (heap s)")
  case True
  then show ?thesis by (simp add: Node_add_child_def nth_list_update)
next
  case False
  then show ?thesis by (simp add: Node_add_child_def list_update_beyond)
qed

lemma Node_add_child_frame [simp]:
  "g_nodes (Node_add_child p c ty w s) = g_nodes s"
  "g_infected (Node_add_child p c ty w s) = g_infected s"
  "length (heap (Node_add_child p c ty w s)) = length (heap s)"
  "nodes (Node_add_child p c ty w s) = nodes s"
  by (simp_all add: Node_add_child_def nodes_def)

lemma Node_add_child_name [simp]:
  "name (heap (Node_add_child p c ty w s) ! n) = name (heap s ! n)"
  by (simp add: heap_Node_add_child)

lemma Node_add_child_children:
  "x \<in> children (heap (Node_add_child p c ty w s) ! n) \<Longrightarrow>
     x \<in> children (heap s ! n) \<or> (n = p \<and> x = c)"
  using add_child_children [of "heap s ! p" c "name (heap s ! c)" ty w]
  by (simp add: heap_Node_add_child split: if_splits) blast

lemma Node_add_child_edges:
  "edges (heap (Node_add_child p c ty w s) ! n) \<noteq> [] \<Longrightarrow>
     edges (heap s ! n) \<noteq> [] \<or> n = p"
  by (simp add: heap_Node_add_child split: if_splits)

lemma wf_registered:
  assumes "well_formed s" "(k, n) \<in> set (g_nodes s)"
  shows "n < length (heap s)" "name (heap s ! n) = k"
    "x \<in> children (heap s ! n) \<Longrightarrow> x < length (heap s)"
    "x \<in> children (heap s ! n) \<Longrightarrow> x \<in> nodes s \<or> name (heap s ! x) = k"
  using assms unfolding well_formed_def by blast+

lemma wf_owner:
  "well_formed s \<Longrightarrow> n < length (heap s) \<Longrightarrow> edges (heap s ! n) \<noteq> [] \<Longrightarrow>
     name (heap s ! n) \<in> fst ` set (g_nodes s)"
  unfolding well_formed_def by blast

lemma wf_Node_add_child:
  assumes "well_formed s" "p < length (heap s)" "c < length (heap s)"
    and "name (heap s ! p) \<in> fst ` set (g_nodes s)"
    and "c \<in> nodes s \<or> name (heap s ! c) = name (heap s ! p)"
  shows "well_formed (Node_add_child p c ty w s)"
proof -
  let ?s = "Node_add_child p c ty w s"
  note ch = Node_add_child_children [of _ p c ty w s]
  note ed = Node_add_child_edges [of p c ty w s]
  have reg: "n < length (heap ?s) \<and> name (heap ?s ! n) = k \<and>
         (\<forall>x \<in> children (heap ?s ! n). x < length (heap ?s) \<and>
            (x \<in> nodes ?s \<or> name (heap ?s ! x) = k))"
    if kn: "(k, n) \<in> set (g_nodes ?s)" for k n
  proof -
    from kn have kn': "(k, n) \<in> set (g_nodes s)" by simp
    note old = wf_registered [OF assms(1) kn']
    have "x < length (heap ?s) \<and> (x \<in> nodes ?s \<or> name (heap ?s ! x) = k)"
      if "x \<in> children (heap ?s ! n)" for x
    proof -
      from ch [OF that] consider "x \<in> children (heap s ! n)" | "n = p" "x = c" by blast
      then show ?thesis
      proof cases
        case 1
        then show ?thesis using old(3,4) by simp
      next
        case 2
        then show ?thesis using assms(3,5) old(2) by auto
      qed
    qed
    then show ?thesis using old(1,2) by simp
  qed
  have own: "name (heap ?s ! n) \<in> fst ` set (g_nodes ?s)"
    if n: "n < length (heap ?s)" "edges (heap ?s ! n) \<noteq> []" for n
  proof -
    from ed [OF n(2)] consider "edges (heap s ! n) \<noteq> []" | "n = p" by blast
    then show ?thesis
    proof cases
      case 1
      then show ?thesis using wf_owner [OF assms(1), of n] n(1) by simp
    next
      case 2
      then show ?thesis using assms(4) by simp
    qed
  qed
  have d: "distinct (map fst (g_nodes ?s))" "distinct (map fst (g_infected ?s))"
    "set (g_infected ?s) \<subseteq> set (g_nodes ?s)"
    using assms(1) by (simp_all add: well_formed_def)
  show ?thesis
    unfolding well_formed_def using d reg own by blast
qed

lemma add_node_Node_add_child:
  "snd (add_node n (Node_add_child p c ty w s)) = Node_add_child p c ty w (snd (add_node n s))"
  by (simp add: add_node_def) (simp add: Node_add_child_def)


lemma add_node_frame [simp]:
  "heap (snd (add_node n s)) = heap s"
  "g_infected (snd (add_node n s)) = g_infected s"
  "fst (add_node n s) = n"
  by (simp_all add: add_node_def)

lemma add_node_registers:
  "name (heap s ! n) \<in> fst ` set (g_nodes (snd (add_node n s)))"
  by (simp add: add_node_def)

lemma add_node_mono: "set (g_nodes s) \<subseteq> set (g_nodes (snd (add_node n s)))"
  by (auto simp add: add_node_def)

lemma add_node_keys:
  "fst ` set (g_nodes (snd (add_node n s))) = insert (name (heap s ! n)) (fst ` set (g_nodes s))"
  by (auto simp add: add_node_def)

lemma add_node_fresh:
  "name (heap s ! n) \<notin> fst ` set (g_nodes s) \<Longrightarrow> n \<in> nodes (snd (add_node n s))"
  by (simp add: add_node_def nodes_def)

lemma nodes_add_node_mono: "nodes s \<subseteq> nodes (snd (add_node n s))"
  using add_node_mono [of s n] by (auto simp add: nodes_def)

text \<open>Registering the parent, then the child, then adding the edge.\<close>

lemma wf_link:
  assumes "well_formed s" "p < length (heap s)" "c < length (heap s)"
    and "c \<in> nodes s \<or> name (heap s ! c) \<notin> fst ` set (g_nodes s)"
  shows "well_formed (Node_add_child p c ty w (snd (add_node c (snd (add_node p s)))))"
proof -
  let ?s1 = "snd (add_node p s)"
  let ?s2 = "snd (add_node c ?s1)"
  have w1: "well_formed ?s1" using assms(1,2) by (rule wf_add_node)
  have w2: "well_formed ?s2" using w1 assms(3) by (simp add: wf_add_node)
  have pk: "name (heap ?s2 ! p) \<in> fst ` set (g_nodes ?s2)"
    using add_node_registers [of s p] add_node_mono [of ?s1 c] by auto
  have ck: "c \<in> nodes ?s2 \<or> name (heap ?s2 ! c) = name (heap ?s2 ! p)"
  proof (cases "c \<in> nodes s")
    case True
    then show ?thesis using nodes_add_node_mono [of s p] nodes_add_node_mono [of ?s1 c] by auto
  next
    case False
    with assms(4) have fresh: "name (heap s ! c) \<notin> fst ` set (g_nodes s)" by simp
    show ?thesis
    proof (cases "name (heap s ! c) = name (heap s ! p)")
      case True
      then show ?thesis by simp
    next
      case False
      with fresh have "name (heap ?s1 ! c) \<notin> fst ` set (g_nodes ?s1)"
        by (simp add: add_node_keys)
      then show ?thesis using add_node_fresh [of ?s1 c] by simp
    qed
  qed
  show ?thesis
    using w2 assms(2,3) pk ck by (intro wf_Node_add_child) simp_all
qed

lemma add_edge_by_node_sequence_link:
  "add_edge_by_node_sequence parent child_name directed tprob ty w s =
     (let (p, s1) = (case get_node_by_name s parent of
                       Some x \<Rightarrow> (x, s)
                     | None \<Rightarrow> Node_init parent (or_default tprob (g_transmission_probability s)) s);
          (c, s2) = (case get_node_by_name s1 child_name of
                       Some x \<Rightarrow> (x, s1)
                     | None \<Rightarrow> Node_init child_name (or_default tprob (g_transmission_probability s1)) s1)
      in Node_add_child p c ty w (snd (add_node c (snd (add_node p s2)))))"
  by (simp add: add_edge_by_node_sequence_def Let_def add_node_Node_add_child split: prod.splits)

lemma Node_init_frame [simp]:
  "g_nodes (snd (Node_init nm t s)) = g_nodes s"
  "g_infected (snd (Node_init nm t s)) = g_infected s"
  "fst (Node_init nm t s) = length (heap s)"
  "length (heap (snd (Node_init nm t s))) = Suc (length (heap s))"
  "nodes (snd (Node_init nm t s)) = nodes s"
  "get_node_by_name (snd (Node_init nm t s)) k = get_node_by_name s k"
  "name (heap (snd (Node_init nm t s)) ! length (heap s)) = nm"
  by (simp_all add: Node_init_def nodes_def get_node_by_name_def)

lemma wf_add_edge_by_node_sequence:
  assumes "well_formed s"
  shows "well_formed (add_edge_by_node_sequence parent child_name directed tprob ty w s)"
proof -
  obtain p s1 where ps: "(case get_node_by_name s parent of
                       Some x \<Rightarrow> (x, s)
                     | None \<Rightarrow> Node_init parent (or_default tprob (g_transmission_probability s)) s)
         = (p, s1)" by fastforce
  obtain c s2 where cs: "(case get_node_by_name s1 child_name of
                       Some x \<Rightarrow> (x, s1)
                     | None \<Rightarrow> Node_init child_name (or_default tprob (g_transmission_probability s1)) s1)
         = (c, s2)" by fastforce
  have 1: "well_formed s1 \<and> p < length (heap s1) \<and> g_nodes s1 = g_nodes s"
  proof (cases "get_node_by_name s parent")
    case None
    with ps have "s1 = snd (Node_init parent (or_default tprob (g_transmission_probability s)) s)"
      "p = length (heap s)" by (auto simp add: Node_init_def)
    then show ?thesis using wf_Node_init [OF assms] by simp
  next
    case (Some x)
    with ps have "s1 = s" "p = x" by auto
    then show ?thesis using wf_lookup [OF assms Some] assms by simp
  qed
  have 2: "well_formed s2 \<and> p < length (heap s2) \<and> c < length (heap s2)
     \<and> (c \<in> nodes s2 \<or> name (heap s2 ! c) \<notin> fst ` set (g_nodes s2))"
  proof (cases "get_node_by_name s1 child_name")
    case None
    with cs have e: "s2 = snd (Node_init child_name (or_default tprob (g_transmission_probability s1)) s1)"
      "c = length (heap s1)" by (auto simp add: Node_init_def)
    have "child_name \<notin> fst ` set (g_nodes s1)" using None by (rule lookup_None)
    then show ?thesis using e 1 wf_Node_init [of s1] by simp
  next
    case (Some x)
    with cs have "s2 = s1" "c = x" by auto
    then show ?thesis using wf_lookup [OF _ Some] 1 by simp
  qed
  have "add_edge_by_node_sequence parent child_name directed tprob ty w s =
     Node_add_child p c ty w (snd (add_node c (snd (add_node p s2))))"
    using ps cs by (simp add: add_edge_by_node_sequence_link)
  then show ?thesis using 2 wf_link [of s2 p c ty w] by simp
qed



lemma set_infection_i_frame [simp]:
  "heap (set_infection_i cb n s) = heap s"
  "g_nodes (set_infection_i cb n s) = g_nodes s"
  "g_infection (set_infection_i cb n s) = g_infection s"
  "g_recovery (set_infection_i cb n s) = g_recovery s"
  "nodes (set_infection_i cb n s) = nodes s"
  by (simp_all add: set_infection_i_def Let_def nodes_def)


lemma set_recovery_r_frame [simp]:
  "heap (set_recovery_r cb n s) = heap s"
  "g_nodes (set_recovery_r cb n s) = g_nodes s"
  "g_infection (set_recovery_r cb n s) = g_infection s"
  "g_recovery (set_recovery_r cb n s) = g_recovery s"
  "nodes (set_recovery_r cb n s) = nodes s"
  by (simp_all add: set_recovery_r_def Let_def nodes_def)





lemma wf_events [simp]: "well_formed (s\<lparr>events := es\<rparr>) = well_formed s"
  by (rule wf_frame) simp_all












lemma closures_frame [simp]:
  "g_infection (snd (Node_init nm t s)) = g_infection s"
  "g_recovery (snd (Node_init nm t s)) = g_recovery s"
  "g_infection (snd (add_node n s)) = g_infection s"
  "g_recovery (snd (add_node n s)) = g_recovery s"
  "g_infection (Node_add_child p c ty w s) = g_infection s"
  "g_recovery (Node_add_child p c ty w s) = g_recovery s"
  by (simp_all add: Node_init_def add_node_def Node_add_child_def)

lemma add_edge_by_node_sequence_closures [simp]:
  "g_infection (add_edge_by_node_sequence parent child_name directed tprob ty w s) = g_infection s"
  "g_recovery (add_edge_by_node_sequence parent child_name directed tprob ty w s) = g_recovery s"
  by (simp_all add: add_edge_by_node_sequence_def Let_def case_prod_beta split: option.splits)

lemma add_edge_closures:
  "add_edge from_n to_n s = Inr (res, s') \<Longrightarrow>
     g_infection s' = g_infection s \<and> g_recovery s' = g_recovery s"
  by (auto simp add: add_edge_def Let_def split: option.splits)



lemma wf_new_graph: "well_formed new_graph"
  by (simp add: well_formed_def new_graph_def)

lemma wf_args_edges: "well_formed s \<Longrightarrow> well_formed (args_edges es s)"
  by (induction es s rule: args_edges.induct) (simp_all add: wf_add_edge_by_node_sequence)

lemma wf_kwargs_edges: "well_formed s \<Longrightarrow> kwargs_edges es d t s = Inr s' \<Longrightarrow> well_formed s'"
proof (induction es arbitrary: s)
  case Nil
  then show ?case by simp
next
  case (Cons e es)
  from Cons.prems(2) obtain parent child_name where
    r: "kwargs_edges es d t
          (add_edge_by_node_sequence parent child_name (Some d) t (r_type e)
             (case r_weight e of None \<Rightarrow> 1 | Some w \<Rightarrow> w) s) = Inr s'"
    by (auto split: option.splits)
  show ?case
    by (rule Cons.IH [OF wf_add_edge_by_node_sequence [OF Cons.prems(1)] r])
qed

lemma Graph_init_inv:
  assumes "Graph_init args kw = Inr s"
  shows "graph_inv s"
proof -
  from assms obtain s1 where s1: "s = set_recovery Lambda_None (set_infection Lambda_None s1)"
    and c: "(if kw_graph kw \<noteq> None then init_nodes_from_kwargs kw new_graph
            else if args \<noteq> [] then init_nodes_from_args args kw new_graph
            else Inr new_graph) = Inr s1"
    by (auto simp add: Graph_init_def split: sum.splits)
  have "well_formed s1"
    using c wf_new_graph wf_args_edges [OF wf_new_graph] wf_kwargs_edges [OF wf_new_graph]
    by (auto simp add: init_nodes_from_kwargs_def init_nodes_from_args_def
        split: if_splits option.splits list.splits)
  then have "well_formed s" using s1 wf_frame [of s s1] by (simp add: set_infection_def set_recovery_def)
  then show ?thesis using s1 by (simp add: graph_inv_def set_infection_def set_recovery_def)
qed





subsection \<open>The registry\<close>












lemma Graph_init_distinct:
  "Graph_init args kw = Inr s \<Longrightarrow> distinct (map fst (g_nodes s))"
  using Graph_init_inv [of args kw s] by (simp add: graph_inv_def well_formed_def)

lemma add_edge_by_node_sequence_registered:
  assumes "get_node_by_name s parent = Some x" and "get_node_by_name s child_name = Some y"
  shows "heap (add_edge_by_node_sequence parent child_name directed tprob ty w s) =
           heap (Node_add_child x y ty w s)"
  using assms by (simp add: add_edge_by_node_sequence_link Node_add_child_def)

subsection \<open>Installed procedures, on every graph\<close>

lemma exec_installed:
  assumes "installed s"
  shows "exec c s \<noteq> Inl TypeError \<and> (\<forall>s'. exec c s = Inr s' \<longrightarrow> installed s')"
proof (cases c)
  case (New_Node nm t)
  then show ?thesis using assms by (simp add: installed_def)
next
  case (Add_edge_by_node_sequence parent child_name directed tprob ty w)
  then show ?thesis using assms by (simp add: installed_def)
next
  case (Add_node n)
  then show ?thesis using assms by (simp add: installed_def)
next
  case (Add_edge from_n to_n)
  show ?thesis
  proof (cases "add_edge from_n to_n s")
    case (Inl e)
    then have "e = KeyError" by (simp add: add_edge_def Let_def split: option.splits)
    then show ?thesis using Inl Add_edge by simp
  next
    case (Inr x)
    obtain res s1 where x: "x = (res, s1)" by (cases x)
    then show ?thesis using Inr Add_edge assms add_edge_closures [of from_n to_n s res s1]
      by (simp add: installed_def)
  qed
next
  case (Set_infection cb)
  then show ?thesis using assms by (simp add: installed_def set_infection_def)
next
  case (Set_recovery cb)
  then show ?thesis using assms by (simp add: installed_def set_recovery_def)
next
  case (Infect_seeds seed_nodes)
  then show ?thesis using infect_seeds_installed [OF assms, of seed_nodes] by auto
next
  case (Propagate draw)
  then show ?thesis using propagate_installed [OF assms, of draw] by auto
next
  case (Recover decide)
  then show ?thesis using recover_installed [OF assms, of decide] by auto
qed

lemma run_installed:
  "installed s \<Longrightarrow> run cs s \<noteq> Inl TypeError \<and> (\<forall>s'. run cs s = Inr s' \<longrightarrow> installed s')"
proof (induction cs arbitrary: s)
  case Nil
  then show ?case by (simp add: run_def)
next
  case (Cons c cs)
  show ?case
  proof (cases "exec c s")
    case (Inl e)
    then show ?thesis using exec_installed [OF Cons.prems, of c] by (simp add: run_def)
  next
    case (Inr s1)
    then have "installed s1" using exec_installed [OF Cons.prems, of c] by simp
    from Cons.IH [OF this] show ?thesis using Inr by (simp add: run_def)
  qed
qed

text \<open>
  C10. \<open>Graph.__init__\<close> ends by installing a procedure over \<open>lambda n: None\<close> for
  infection and one for recovery. On the graph just built, and on every graph reached from
  it by any calls, whatever its infected index holds, both procedures are installed;
  \<open>infect_seeds\<close> (whatever the seeds), \<open>propagate\<close> (whatever the draws) and \<open>recover\<close>
  (whatever the nodes decide) return, with both procedures still installed; and no further
  sequence of calls fails for calling an unset procedure or callback.
\<close>

theorem procedures_installed_by_construction:
  assumes "Graph_init args kw = Inr s0" and "run cs s0 = Inr s"
  shows "g_infection s0 = Some (Infection_i Lambda_None)
     \<and> g_recovery s0 = Some (Recovery_r Lambda_None)
     \<and> installed s
     \<and> (\<exists>s'. infect_seeds seeds s = Inr s' \<and> installed s')
     \<and> (\<exists>s'. propagate draw s = Inr s' \<and> installed s')
     \<and> (\<exists>s'. recover decide s = Inr s' \<and> installed s')
     \<and> run cs' s \<noteq> Inl TypeError"
proof -
  have i0: "installed s0" using Graph_init_installs [OF assms(1)] by (simp add: installed_def)
  have i: "installed s" using run_installed [OF i0, of cs] assms(2) by simp
  show ?thesis
    using Graph_init_installs [OF assms(1)] i infect_seeds_installed [OF i]
      propagate_installed [OF i] recover_installed [OF i] run_installed [OF i, of cs'] by blast
qed

text \<open>
  The graph of \<open>[(1, 2)]\<close> after node 1 was seeded, with no call of \<open>set_infection\<close> or
  \<open>set_recovery\<close>: the infected index holds node 1. \<open>infect_seeds\<close> on node 2,
  \<open>propagate\<close> and \<open>recover\<close> return; \<open>propagate\<close> invokes the installed callback on
  node 2, and \<open>recover\<close> empties the index.
\<close>

theorem procedures_installed_by_construction_witness:
  "infected (projr (run [Infect_seeds [0]] (projr (Graph_init [[(1, 2)]] no_kwargs)))) = {0}
   \<and> (\<exists>s'. infect_seeds [1] (projr (run [Infect_seeds [0]] (projr (Graph_init [[(1, 2)]] no_kwargs)))) = Inr s'
         \<and> installed s')
   \<and> (\<exists>s'. propagate (\<lambda>n k. True) (projr (run [Infect_seeds [0]] (projr (Graph_init [[(1, 2)]] no_kwargs)))) = Inr s'
         \<and> installed s')
   \<and> (\<exists>s'. recover (\<lambda>n. True) (projr (run [Infect_seeds [0]] (projr (Graph_init [[(1, 2)]] no_kwargs)))) = Inr s'
         \<and> installed s')
   \<and> map_sum id (\<lambda>s. (infected s, events s))
        (propagate (\<lambda>n k. True) (projr (run [Infect_seeds [0]] (projr (Graph_init [[(1, 2)]] no_kwargs))))) =
       Inr ({0, 1}, [Callback Lambda_None 0 [1], Propagate_asked 0, Callback Lambda_None 1 [1, 2]])
   \<and> map_sum id infected
        (recover (\<lambda>n. True) (projr (run [Infect_seeds [0]] (projr (Graph_init [[(1, 2)]] no_kwargs))))) = Inr {}"
proof -
  let ?g = "projr (Graph_init [[(1, 2)]] no_kwargs)"
  let ?t = "projr (run [Infect_seeds [0]] ?g)"
  have "\<not> isl (Graph_init [[(1, 2)]] no_kwargs)"
    by code_simp
  then have h: "Graph_init [[(1, 2)]] no_kwargs = Inr ?g"
    by simp
  have "\<not> isl (run [Infect_seeds [0]] ?g)"
    by code_simp
  then have r: "run [Infect_seeds [0]] ?g = Inr ?t"
    by simp
  have v: "infected ?t = {0}"
    "map_sum id (\<lambda>s. (infected s, events s)) (propagate (\<lambda>n k. True) ?t) =
       Inr ({0, 1}, [Callback Lambda_None 0 [1], Propagate_asked 0, Callback Lambda_None 1 [1, 2]])"
    "map_sum id infected (recover (\<lambda>n. True) ?t) = Inr {}"
    by code_simp+
  show ?thesis
    using v procedures_installed_by_construction [OF h r, of "[1]" "\<lambda>n k. True" "\<lambda>n. True"]
    by blast
qed

subsection \<open>The default transmission probability\<close>























subsection \<open>Edge records resolve by name\<close>













lemma Node_init_default [simp]:
  "g_transmission_probability (snd (Node_init nm t s)) = g_transmission_probability s"
  by (simp add: Node_init_def)








end
